theory Spec2Isabelle
  imports Main
begin

section \<open>Python values used by \<open>pdfmind/processor.py\<close>\<close>

text \<open>
  A Python \<open>str\<close> is a sequence of Unicode code points and \<open>len\<close> counts code points,
  so a character is modelled by its code point and a string by a list of them.
  \<open>py\<close> turns an ASCII literal into such a string.
\<close>

type_synonym codepoint = nat
type_synonym pystr = "codepoint list"

definition py :: "string \<Rightarrow> pystr" where
  "py s = map of_char s"

text \<open>
  What the code can raise. \<open>ValueError\<close> is what \<open>range\<close> raises on a zero step;
  \<open>Exception m\<close> stands for any other exception derived from Python's \<open>Exception\<close>
  (raised by the PDF reader, the embedding model or the vector store);
  \<open>BaseException m\<close> for those that are not (\<open>KeyboardInterrupt\<close>, \<open>SystemExit\<close>).
\<close>

datatype exn = ValueError | Exception string | BaseException string

fun is_Exception :: "exn \<Rightarrow> bool" where
  "is_Exception ValueError = True"
| "is_Exception (Exception m) = True"
| "is_Exception (BaseException m) = False"

text \<open>\<open>c.isspace()\<close>: the code points that \<open>str.strip()\<close> removes.\<close>

definition py_isspace :: "codepoint \<Rightarrow> bool" where
  "py_isspace c \<longleftrightarrow>
     (9 \<le> c \<and> c \<le> 13) \<or> (28 \<le> c \<and> c \<le> 32) \<or> c = 133 \<or> c = 160 \<or>
     c = 5760 \<or> (8192 \<le> c \<and> c \<le> 8202) \<or> c = 8232 \<or> c = 8233 \<or>
     c = 8239 \<or> c = 8287 \<or> c = 12288"

text \<open>\<open>s.strip()\<close>: leading and trailing whitespace removed.\<close>

definition strip :: "pystr \<Rightarrow> pystr" where
  "strip s = rev (dropWhile py_isspace (rev (dropWhile py_isspace s)))"

text \<open>\<open>s.startswith(p)\<close>.\<close>

definition startswith :: "pystr \<Rightarrow> pystr \<Rightarrow> bool" where
  "startswith s p \<longleftrightarrow> take (length p) s = p"

text \<open>
  Slices. An index of a slice is clamped to the string: a negative one counts from the
  end, and one beyond either end stops at that end. \<open>py_slice i j s\<close> is \<open>s[i:j]\<close>,
  \<open>py_slice_from i s\<close> is \<open>s[i:]\<close>.
\<close>

definition clamp_index :: "int \<Rightarrow> nat \<Rightarrow> nat" where
  "clamp_index i n = (if i < 0 then nat (max (i + int n) 0) else min (nat i) n)"

definition py_slice :: "int \<Rightarrow> int \<Rightarrow> 'a list \<Rightarrow> 'a list" where
  "py_slice i j s =
     (let lo = clamp_index i (length s); hi = clamp_index j (length s)
      in take (hi - lo) (drop lo s))"

definition py_slice_from :: "int \<Rightarrow> 'a list \<Rightarrow> 'a list" where
  "py_slice_from i s = drop (clamp_index i (length s)) s"

text \<open>
  \<open>range(start, stop, step)\<close>, as the list of the values it yields. A zero step raises
  \<open>ValueError\<close>; a positive step counts up while below \<open>stop\<close>, a negative one down
  while above it.
\<close>

function range_up :: "int \<Rightarrow> int \<Rightarrow> int \<Rightarrow> int list" where
  "range_up i stop step =
     (if 0 < step \<and> i < stop then i # range_up (i + step) stop step else [])"
  by pat_completeness auto
termination
  by (relation "measure (\<lambda>(i, stop, step). nat (stop - i))") auto

function range_down :: "int \<Rightarrow> int \<Rightarrow> int \<Rightarrow> int list" where
  "range_down i stop step =
     (if step < 0 \<and> stop < i then i # range_down (i + step) stop step else [])"
  by pat_completeness auto
termination
  by (relation "measure (\<lambda>(i, stop, step). nat (i - stop))") auto

definition py_range :: "int \<Rightarrow> int \<Rightarrow> int \<Rightarrow> exn + int list" where
  "py_range start stop step =
     (if step = 0 then Inl ValueError
      else if 0 < step then Inr (range_up start stop step)
      else Inr (range_down start stop step))"

section \<open>The sentence boundary split\<close>

text \<open>
  \<open>re.split(r'(?<=[.!?]) +', s)\<close>. A separator is a maximal run of spaces (U+0020) that
  directly follows one of \<open>.\<close>, \<open>!\<close>, \<open>?\<close>; the pieces between the separators are
  returned, in order. \<open>split_from prev cur s\<close> scans \<open>s\<close> with \<open>prev\<close> the character
  just before it (none at the start of the string, where the look-behind fails) and
  \<open>cur\<close> the piece read so far.
\<close>

definition is_boundary :: "codepoint \<Rightarrow> bool" where
  "is_boundary c \<longleftrightarrow> c = 46 \<or> c = 33 \<or> c = 63"

definition space :: codepoint where
  "space = 32"

function split_from :: "codepoint option \<Rightarrow> pystr \<Rightarrow> pystr \<Rightarrow> pystr list" where
  "split_from prev cur [] = [cur]"
| "split_from prev cur (c # cs) =
     (if c = space \<and> (case prev of None \<Rightarrow> False | Some p \<Rightarrow> is_boundary p)
      then cur # split_from (Some space) [] (dropWhile (\<lambda>x. x = space) cs)
      else split_from (Some c) (cur @ [c]) cs)"
  by pat_completeness auto
termination
  by (relation "measure (\<lambda>(prev, cur, s). length s)")
     (auto simp: less_Suc_eq_le length_dropWhile_le)

definition re_split :: "pystr \<Rightarrow> pystr list" where
  "re_split s = split_from None [] s"

section \<open>\<open>PDFProcessor.split_text_smart\<close>\<close>

text \<open>
  One iteration of the packing loop (lines 36 to 49), on the state
  \<open>(initial_chunks, current_chunk)\<close>.
\<close>

definition pack_step ::
  "int \<Rightarrow> pystr list \<times> pystr \<Rightarrow> pystr \<Rightarrow> exn + (pystr list \<times> pystr)" where
  "pack_step chunk_size st sentence =
     (case st of (initial_chunks, current_chunk) \<Rightarrow>
        let estimated_length = int (length current_chunk) + int (length sentence) + 1 in
        if estimated_length \<le> chunk_size then
          Inr (initial_chunks,
               current_chunk @ (if current_chunk \<noteq> [] then [space] else []) @ sentence)
        else
          let flushed = (if current_chunk \<noteq> [] then initial_chunks @ [strip current_chunk]
                         else initial_chunks) in
          if int (length sentence) > chunk_size then
            (case py_range 0 (int (length sentence)) chunk_size of
               Inl e \<Rightarrow> Inl e
             | Inr idx \<Rightarrow>
                 Inr (flushed @ map (\<lambda>i. strip (py_slice i (i + chunk_size) sentence)) idx,
                      []))
          else Inr (flushed, sentence))"

fun pack_loop ::
  "int \<Rightarrow> pystr list \<times> pystr \<Rightarrow> pystr list \<Rightarrow> exn + (pystr list \<times> pystr)" where
  "pack_loop chunk_size st [] = Inr st"
| "pack_loop chunk_size st (sentence # rest) =
     (case pack_step chunk_size st sentence of
        Inl e \<Rightarrow> Inl e
      | Inr st' \<Rightarrow> pack_loop chunk_size st' rest)"

text \<open>The initial chunk list: the packing loop and the last flush (lines 32 to 52).\<close>

definition initial_chunks_of :: "pystr \<Rightarrow> int \<Rightarrow> exn + pystr list" where
  "initial_chunks_of text chunk_size =
     (case pack_loop chunk_size ([], []) (re_split (strip text)) of
        Inl e \<Rightarrow> Inl e
      | Inr (initial_chunks, current_chunk) \<Rightarrow>
          Inr (if current_chunk \<noteq> [] then initial_chunks @ [strip current_chunk]
               else initial_chunks))"

text \<open>The body of the stitching loop for index \<open>i\<close> (lines 57 to 61).\<close>

definition stitch_at :: "int \<Rightarrow> pystr list \<Rightarrow> nat \<Rightarrow> pystr" where
  "stitch_at overlap initial_chunks i =
     (let chunk = initial_chunks ! i in
      strip (if i > 0 then
               let overlap_text = strip (py_slice_from (- overlap) (initial_chunks ! (i - 1)))
               in if \<not> startswith chunk overlap_text
                  then overlap_text @ [space] @ chunk else chunk
             else chunk))"

definition add_overlaps :: "int \<Rightarrow> pystr list \<Rightarrow> pystr list" where
  "add_overlaps overlap initial_chunks =
     map (stitch_at overlap initial_chunks) [0..<length initial_chunks]"

text \<open>
  The whole function. The text is \<open>None\<close> when the caller passes Python's \<open>None\<close>;
  \<open>not text\<close> holds for \<open>None\<close> and for the empty string.
\<close>

definition split_text_smart :: "pystr option \<Rightarrow> int \<Rightarrow> int \<Rightarrow> exn + pystr list" where
  "split_text_smart text chunk_size overlap =
     (case text of
        None \<Rightarrow> Inr []
      | Some t \<Rightarrow>
          if t = [] then Inr []
          else (case initial_chunks_of t chunk_size of
                  Inl e \<Rightarrow> Inl e
                | Inr initial_chunks \<Rightarrow> Inr (add_overlaps overlap initial_chunks)))"

section \<open>\<open>PDFProcessor\<close> and the pipeline\<close>

text \<open>
  The collaborators (the PDF reader, the embedding model, the vector store) are not part
  of the repository. Each call into them is a parameter: a function that either raises
  or returns a value. \<open>'page\<close>, \<open>'model\<close>, \<open>'emb\<close>, \<open>'client\<close> and \<open>'coll\<close> are the
  types of their objects.
\<close>

record ('page, 'model, 'emb, 'client, 'coll) libraries =
  PdfReader :: "string \<Rightarrow> exn + 'page list"
  page_extract_text :: "'page \<Rightarrow> exn + pystr"
  SentenceTransformer :: "string \<Rightarrow> exn + 'model"
  encode :: "'model \<Rightarrow> pystr list \<Rightarrow> exn + 'emb"
  PersistentClient :: "string \<Rightarrow> exn + 'client"
  get_or_create_collection :: "'client \<Rightarrow> string \<Rightarrow> exn + 'coll"
  upsert :: "'coll \<Rightarrow> pystr list \<Rightarrow> 'emb \<Rightarrow> pystr list \<Rightarrow> exn + 'coll"

text \<open>
  The fields of a \<open>PDFProcessor\<close> (lines 12 to 17); \<open>reader\<close> holds \<open>reader.pages\<close> and
  \<open>self_text\<close> is the field \<open>self.text\<close>.
\<close>

record ('page, 'emb) PDFProcessor =
  pdf_path :: string
  reader :: "'page list"
  self_text :: pystr
  chunks :: "pystr list"
  embeddings :: "'emb option"

definition PDFProcessor_init ::
  "('page, 'model, 'emb, 'client, 'coll) libraries \<Rightarrow> string \<Rightarrow>
   exn + ('page, 'emb) PDFProcessor" where
  "PDFProcessor_init L path =
     (case PdfReader L path of
        Inl e \<Rightarrow> Inl e
      | Inr pages \<Rightarrow>
          Inr \<lparr>pdf_path = path, reader = pages, self_text = [], chunks = [],
               embeddings = None\<rparr>)"

definition newline :: codepoint where
  "newline = 10"

text \<open>The loop of \<open>extract_text\<close> (lines 22 and 23), with the text read so far.\<close>

fun extract_pages :: "('page \<Rightarrow> exn + pystr) \<Rightarrow> pystr \<Rightarrow> 'page list \<Rightarrow> exn + pystr" where
  "extract_pages page_text acc [] = Inr acc"
| "extract_pages page_text acc (page # pages) =
     (case page_text page of
        Inl e \<Rightarrow> Inl e
      | Inr t \<Rightarrow> extract_pages page_text (acc @ t @ [newline]) pages)"

definition extract_text ::
  "('page, 'model, 'emb, 'client, 'coll) libraries \<Rightarrow> ('page, 'emb) PDFProcessor \<Rightarrow>
   exn + (pystr \<times> ('page, 'emb) PDFProcessor)" where
  "extract_text L self =
     (case extract_pages (page_extract_text L) [] (reader self) of
        Inl e \<Rightarrow> Inl e
      | Inr t \<Rightarrow> Inr (t, self\<lparr>self_text := t\<rparr>))"

text \<open>What the functions print, in order.\<close>

datatype message =
    Extracting_text
  | Splitting_text
  | Generating_embeddings string
  | Initializing_ChromaDB
  | Adding_embeddings
  | Stored nat string
  | Error_message exn

text \<open>
  \<open>generate_embeddings\<close> (lines 69 to 80): the value returned or the exception raised,
  and the messages printed up to there.
\<close>

definition generate_embeddings ::
  "('page, 'model, 'emb, 'client, 'coll) libraries \<Rightarrow> ('page, 'emb) PDFProcessor \<Rightarrow>
   string \<Rightarrow> int \<Rightarrow> int \<Rightarrow>
   (exn + ('emb \<times> ('page, 'emb) PDFProcessor)) \<times> message list" where
  "generate_embeddings L self model_name chunk_size overlap =
     (let out1 = [Extracting_text] in
      case extract_text L self of
        Inl e \<Rightarrow> (Inl e, out1)
      | Inr (t, self1) \<Rightarrow>
          let out2 = out1 @ [Splitting_text] in
          case split_text_smart (Some t) chunk_size overlap of
            Inl e \<Rightarrow> (Inl e, out2)
          | Inr cs \<Rightarrow>
              let self2 = self1\<lparr>chunks := cs\<rparr>;
                  out3 = out2 @ [Generating_embeddings model_name] in
              case SentenceTransformer L model_name of
                Inl e \<Rightarrow> (Inl e, out3)
              | Inr model \<Rightarrow>
                  (case encode L model cs of
                     Inl e \<Rightarrow> (Inl e, out3)
                   | Inr embs \<Rightarrow> (Inr (embs, self2\<lparr>embeddings := Some embs\<rparr>), out3)))"

text \<open>\<open>str(i)\<close> for a natural number, and the identifiers \<open>chunk_0\<close>, \<open>chunk_1\<close>, ...\<close>

function str_nat :: "nat \<Rightarrow> pystr" where
  "str_nat n = (if n < 10 then [48 + n] else str_nat (n div 10) @ [48 + n mod 10])"
  by pat_completeness auto
termination
  by (relation "measure id") auto

definition chunk_ids :: "nat \<Rightarrow> pystr list" where
  "chunk_ids n = map (\<lambda>i. py ''chunk_'' @ str_nat i) [0..<n]"

text \<open>The body of the \<open>try\<close> statement (lines 91 to 107).\<close>

definition try_block ::
  "('page, 'model, 'emb, 'client, 'coll) libraries \<Rightarrow> string \<Rightarrow> string \<Rightarrow> string \<Rightarrow>
   (exn + (('page, 'emb) PDFProcessor \<times> 'coll)) \<times> message list" where
  "try_block L path db_path collection_name =
     (case PDFProcessor_init L path of
        Inl e \<Rightarrow> (Inl e, [])
      | Inr processor0 \<Rightarrow>
          (case generate_embeddings L processor0 ''all-MiniLM-L6-v2'' 500 50 of
             (Inl e, out) \<Rightarrow> (Inl e, out)
           | (Inr (embs, processor), out) \<Rightarrow>
               let out1 = out @ [Initializing_ChromaDB] in
               case PersistentClient L db_path of
                 Inl e \<Rightarrow> (Inl e, out1)
               | Inr client \<Rightarrow>
                   (case get_or_create_collection L client collection_name of
                      Inl e \<Rightarrow> (Inl e, out1)
                    | Inr collection \<Rightarrow>
                        let out2 = out1 @ [Adding_embeddings];
                            ids = chunk_ids (length (chunks processor)) in
                        case upsert L collection ids embs (chunks processor) of
                          Inl e \<Rightarrow> (Inl e, out2)
                        | Inr collection' \<Rightarrow>
                            (Inr (processor, collection'),
                             out2 @ [Stored (length (chunks processor)) db_path]))))"

text \<open>
  How a call ends: it returns a value, or an exception leaves it. \<open>except Exception\<close>
  handles the exceptions derived from \<open>Exception\<close> and lets the others through.
\<close>

datatype 'a outcome = Returned 'a | Raised exn

definition process_pdf_and_store_in_chroma ::
  "('page, 'model, 'emb, 'client, 'coll) libraries \<Rightarrow> string \<Rightarrow> string \<Rightarrow> string \<Rightarrow>
   (('page, 'emb) PDFProcessor option \<times> 'coll option) outcome \<times> message list" where
  "process_pdf_and_store_in_chroma L path db_path collection_name =
     (case try_block L path db_path collection_name of
        (Inr (processor, collection), out) \<Rightarrow>
          (Returned (Some processor, Some collection), out)
      | (Inl e, out) \<Rightarrow>
          if is_Exception e then (Returned (None, None), out @ [Error_message e])
          else (Raised e, out))"

text \<open>
  The specification's description of the slices of an oversized sentence: consecutive
  pieces of width \<open>n\<close>, the last one possibly shorter. It is compared below with the
  comprehension over \<open>range\<close> that the code evaluates.
\<close>

function fixed_width_slices :: "nat \<Rightarrow> 'a list \<Rightarrow> 'a list list" where
  "fixed_width_slices n s =
     (if n = 0 \<or> s = [] then [] else take n s # fixed_width_slices n (drop n s))"
  by pat_completeness auto
termination
  by (relation "measure (\<lambda>(n, s). length s)") auto

declare fixed_width_slices.simps [simp del]
declare range_up.simps [simp del]
declare range_down.simps [simp del]

text \<open>
  The specification's "trailing \<open>n\<close> characters" of a string: its last \<open>n\<close> characters,
  or all of it when it is shorter; none when \<open>n\<close> is 0.
\<close>

definition last_chars :: "nat \<Rightarrow> 'a list \<Rightarrow> 'a list" where
  "last_chars n s = drop (length s - n) s"

text \<open>
  Collaborators for the examples below: a reader that yields two pages, and no embedding
  model to load.
\<close>

definition offline_libraries :: "(pystr, unit, unit, unit, unit) libraries" where
  "offline_libraries =
     \<lparr>PdfReader = (\<lambda>path. Inr [py ''Hello world.'', py ''This is a test.'']),
      page_extract_text = (\<lambda>page. Inr page),
      SentenceTransformer = (\<lambda>name. Inl (Exception ''model not found'')),
      encode = (\<lambda>model cs. Inr ()),
      PersistentClient = (\<lambda>path. Inr ()),
      get_or_create_collection = (\<lambda>client name. Inr ()),
      upsert = (\<lambda>collection ids embs documents. Inr ())\<rparr>"

section \<open>Facts about \<open>strip\<close>\<close>

lemma strip_prefix_shape:
  "\<exists>r. dropWhile py_isspace s = strip s @ r"
  unfolding strip_def
  by (metis rev_append rev_rev_ident takeWhile_dropWhile_id)

lemma strip_ends:
  "strip s = [] \<or> (\<not> py_isspace (hd (strip s)) \<and> \<not> py_isspace (last (strip s)))"
proof (cases "strip s = []")
  case True
  then show ?thesis by simp
next
  case False
  obtain r where r: "dropWhile py_isspace s = strip s @ r"
    using strip_prefix_shape by blast
  then have "dropWhile py_isspace s \<noteq> []" using False by simp
  then have "\<not> py_isspace (hd (dropWhile py_isspace s))" by (rule hd_dropWhile)
  then have h: "\<not> py_isspace (hd (strip s))" using r False by simp
  have "rev (strip s) = dropWhile py_isspace (rev (dropWhile py_isspace s))"
    by (simp add: strip_def)
  moreover have "rev (strip s) \<noteq> []" using False by simp
  ultimately have "\<not> py_isspace (hd (rev (strip s)))"
    using hd_dropWhile by metis
  then have "\<not> py_isspace (last (strip s))" using False by (simp add: hd_rev)
  with h show ?thesis by simp
qed

lemma strip_fixed:
  assumes "s = [] \<or> (\<not> py_isspace (hd s) \<and> \<not> py_isspace (last s))"
  shows "strip s = s"
proof (cases "s = []")
  case True
  then show ?thesis by (simp add: strip_def)
next
  case False
  with assms have h: "\<not> py_isspace (hd s)" and l: "\<not> py_isspace (last s)" by auto
  have 1: "dropWhile py_isspace s = s" using False h by (cases s) auto
  have "\<not> py_isspace (hd (rev s))" using l False by (simp add: hd_rev)
  then have 2: "dropWhile py_isspace (rev s) = rev s" using False by (cases "rev s") auto
  show ?thesis by (simp add: strip_def 1 2)
qed

lemma strip_idem: "strip (strip s) = strip s"
  by (rule strip_fixed) (rule strip_ends)

lemma strip_Nil: "strip [] = []"
  by (simp add: strip_def)

section \<open>Slices and \<open>range\<close>\<close>

lemma py_slice_window:
  assumes "0 \<le> i" "0 < n"
  shows "py_slice i (i + n) s = take (nat n) (drop (nat i) s)"
  using assms by (auto simp: py_slice_def clamp_index_def Let_def min_def nat_add_distrib)

lemma range_up_slices:
  "0 < n \<Longrightarrow> 0 \<le> i \<Longrightarrow>
   map (\<lambda>k. f (py_slice k (k + n) s)) (range_up i (int (length s)) n) =
   map f (fixed_width_slices (nat n) (drop (nat i) s))"
proof (induction i "int (length s)" n rule: range_up.induct)
  case (1 i step)
  show ?case
  proof (cases "i < int (length s)")
    case True
    have d: "drop (nat step) (drop (nat i) s) = drop (nat (i + step)) s"
      using 1 by (simp add: nat_add_distrib add.commute)
    have ne: "drop (nat i) s \<noteq> []" using True 1 by simp
    have IH: "map (\<lambda>k. f (py_slice k (k + step) s)) (range_up (i + step) (int (length s)) step) =
      map f (fixed_width_slices (nat step) (drop (nat (i + step)) s))"
      using 1 True by simp
    have L: "range_up i (int (length s)) step = i # range_up (i + step) (int (length s)) step"
      using 1 True by (subst range_up.simps) simp
    have R: "fixed_width_slices (nat step) (drop (nat i) s) =
       take (nat step) (drop (nat i) s) # fixed_width_slices (nat step) (drop (nat (i + step)) s)"
      using 1 ne by (subst fixed_width_slices.simps) (simp add: d del: drop_drop)
    show ?thesis
      using 1 by (simp add: L R IH py_slice_window)
  next
    case False
    have L: "range_up i (int (length s)) step = []"
      using False by (subst range_up.simps) simp
    have "drop (nat i) s = []" using False 1 by simp
    then have R: "fixed_width_slices (nat step) (drop (nat i) s) = []"
      by (subst fixed_width_slices.simps) simp
    show ?thesis by (simp add: L R)
  qed
qed

lemma concat_fixed_width_slices: "0 < n \<Longrightarrow> concat (fixed_width_slices n s) = s"
proof (induction n s rule: fixed_width_slices.induct)
  case (1 n s)
  show ?case
  proof (cases "s = []")
    case True
    then show ?thesis by (subst fixed_width_slices.simps) simp
  next
    case False
    with 1 have "concat (fixed_width_slices n (drop n s)) = drop n s" by simp
    with False 1 show ?thesis by (subst fixed_width_slices.simps) simp
  qed
qed

lemma fixed_width_slices_lengths:
  "x \<in> set (fixed_width_slices n s) \<Longrightarrow> 0 < length x \<and> length x \<le> n"
proof (induction n s arbitrary: x rule: fixed_width_slices.induct)
  case (1 n s)
  show ?case
  proof (cases "n = 0 \<or> s = []")
    case True
    then have "fixed_width_slices n s = []" by (subst fixed_width_slices.simps) simp
    with "1.prems" show ?thesis by simp
  next
    case False
    then have E: "fixed_width_slices n s = take n s # fixed_width_slices n (drop n s)"
      by (subst fixed_width_slices.simps) simp
    from "1.prems" E have "x = take n s \<or> x \<in> set (fixed_width_slices n (drop n s))" by simp
    then show ?thesis
    proof
      assume "x = take n s"
      with False show ?thesis by simp
    next
      assume "x \<in> set (fixed_width_slices n (drop n s))"
      with False "1.IH" show ?thesis by blast
    qed
  qed
qed

lemma fixed_width_slices_full:
  "x \<in> set (butlast (fixed_width_slices n s)) \<Longrightarrow> length x = n"
proof (induction n s arbitrary: x rule: fixed_width_slices.induct)
  case (1 n s)
  show ?case
  proof (cases "n = 0 \<or> s = []")
    case True
    then have "fixed_width_slices n s = []" by (subst fixed_width_slices.simps) simp
    with "1.prems" show ?thesis by simp
  next
    case False
    then have E: "fixed_width_slices n s = take n s # fixed_width_slices n (drop n s)"
      by (subst fixed_width_slices.simps) simp
    show ?thesis
    proof (cases "drop n s = []")
      case True
      then have "fixed_width_slices n (drop n s) = []" by (subst fixed_width_slices.simps) simp
      with E "1.prems" show ?thesis by simp
    next
      case ne: False
      then have N: "fixed_width_slices n (drop n s) \<noteq> []"
        using False by (subst fixed_width_slices.simps) simp
      from ne have T: "length (take n s) = n" by simp
      from "1.prems" E N have "x = take n s \<or> x \<in> set (butlast (fixed_width_slices n (drop n s)))"
        by simp
      then show ?thesis
      proof
        assume "x = take n s" with T show ?thesis by simp
      next
        assume "x \<in> set (butlast (fixed_width_slices n (drop n s)))"
        with False "1.IH" show ?thesis by blast
      qed
    qed
  qed
qed

section \<open>Evaluation on concrete inputs\<close>

lemmas chunker_defs =
  split_text_smart_def initial_chunks_of_def pack_step_def add_overlaps_def stitch_at_def
  py_slice_from_def py_slice_def py_range_def clamp_index_def startswith_def py_def
  strip_def py_isspace_def space_def re_split_def is_boundary_def upt_rec
  range_up.simps range_down.simps

section \<open>Empty input\<close>

text \<open>
  Claim C5. For every chunk size and overlap, \<open>split_text_smart\<close> applied to the empty
  string, or to an absent text (\<open>None\<close>), returns the empty list and raises nothing.
\<close>

theorem split_text_smart_empty:
  "split_text_smart None chunk_size overlap = Inr [] \<and>
   split_text_smart (Some []) chunk_size overlap = Inr []"
  by (simp add: split_text_smart_def)

section \<open>The scenario of the specification\<close>

text \<open>
  Claim C6. \<open>split_text_smart("Hello world. This is a test.", 15, 5)\<close> returns exactly two
  chunks, and the second one begins with the trimmed last 5 characters of the first
  initial chunk.
\<close>

theorem split_text_smart_scenario:
  "split_text_smart (Some (py ''Hello world. This is a test.'')) 15 5 =
     Inr [py ''Hello world.'', py ''orld. This is a test.''] \<and>
   initial_chunks_of (py ''Hello world. This is a test.'') 15 =
     Inr [py ''Hello world.'', py ''This is a test.''] \<and>
   strip (py_slice_from (- 5) (py ''Hello world.'')) = py ''orld.'' \<and>
   startswith (py ''orld. This is a test.'') (strip (py_slice_from (- 5) (py ''Hello world.'')))"
  by (simp add: chunker_defs)

section \<open>One step of the packing loop\<close>

lemma pack_step_fits:
  assumes "int (length current_chunk) + int (length sentence) + 1 \<le> chunk_size"
  shows "pack_step chunk_size (initial_chunks, current_chunk) sentence =
     Inr (initial_chunks,
          if current_chunk = [] then sentence else current_chunk @ [space] @ sentence)"
  using assms by (simp add: pack_step_def)

lemma pack_step_oversized:
  assumes "0 < chunk_size" and "chunk_size < int (length sentence)"
  shows "pack_step chunk_size (initial_chunks, current_chunk) sentence =
     Inr (initial_chunks @ (if current_chunk \<noteq> [] then [strip current_chunk] else []) @
            map strip (fixed_width_slices (nat chunk_size) sentence), [])"
proof -
  have "map (\<lambda>i. strip (py_slice i (i + chunk_size) sentence))
          (range_up 0 (int (length sentence)) chunk_size) =
        map strip (fixed_width_slices (nat chunk_size) (drop (nat 0) sentence))"
    using assms(1) by (intro range_up_slices) simp_all
  then show ?thesis
    using assms by (simp add: pack_step_def py_range_def)
qed

lemma pack_step_zero:
  assumes "sentence \<noteq> []"
  shows "pack_step 0 st sentence = Inl ValueError"
  using assms by (cases st) (simp add: pack_step_def py_range_def)

lemma pack_step_negative:
  assumes "chunk_size < 0"
  shows "pack_step chunk_size (initial_chunks, current_chunk) sentence =
     Inr (initial_chunks @ (if current_chunk \<noteq> [] then [strip current_chunk] else []), [])"
proof -
  have "range_down 0 (int (length sentence)) chunk_size = []"
    by (subst range_down.simps) simp
  then show ?thesis
    using assms by (simp add: pack_step_def py_range_def)
qed

lemma pack_step_starts_new:
  assumes "\<not> int (length current_chunk) + int (length sentence) + 1 \<le> chunk_size"
    and "int (length sentence) \<le> chunk_size"
  shows "pack_step chunk_size (initial_chunks, current_chunk) sentence =
     Inr (initial_chunks @ (if current_chunk \<noteq> [] then [strip current_chunk] else []),
          sentence)"
  using assms by (simp add: pack_step_def)

text \<open>
  Claim C2. For every chunk size above 0, a sentence strictly longer than the chunk size
  (which therefore never fits into the current chunk) makes the step flush the non-empty
  current chunk, trimmed, then append the sentence as consecutive slices of width
  \<open>chunk_size\<close>, each trimmed, and leave the current chunk empty. The slices put together
  give the sentence back, all but the last have exactly the width \<open>chunk_size\<close>, and none
  is empty or wider.
\<close>

theorem oversized_sentence_is_sliced:
  assumes "0 < chunk_size" and "chunk_size < int (length sentence)"
  shows "\<not> int (length current_chunk) + int (length sentence) + 1 \<le> chunk_size \<and>
     pack_step chunk_size (initial_chunks, current_chunk) sentence =
       Inr (initial_chunks @ (if current_chunk \<noteq> [] then [strip current_chunk] else []) @
              map strip (fixed_width_slices (nat chunk_size) sentence), []) \<and>
     concat (fixed_width_slices (nat chunk_size) sentence) = sentence \<and>
     (\<forall>x \<in> set (butlast (fixed_width_slices (nat chunk_size) sentence)).
        length x = nat chunk_size) \<and>
     (\<forall>x \<in> set (fixed_width_slices (nat chunk_size) sentence).
        0 < length x \<and> length x \<le> nat chunk_size)"
proof -
  have "\<not> int (length current_chunk) + int (length sentence) + 1 \<le> chunk_size"
    using assms(2) by simp
  moreover note pack_step_oversized [OF assms]
  moreover have "concat (fixed_width_slices (nat chunk_size) sentence) = sentence"
    using assms(1) by (simp add: concat_fixed_width_slices)
  moreover have "\<forall>x \<in> set (butlast (fixed_width_slices (nat chunk_size) sentence)).
        length x = nat chunk_size"
    using fixed_width_slices_full by blast
  moreover have "\<forall>x \<in> set (fixed_width_slices (nat chunk_size) sentence).
        0 < length x \<and> length x \<le> nat chunk_size"
    using fixed_width_slices_lengths by blast
  ultimately show ?thesis by blast
qed

lemma slices_abcdefg:
  "fixed_width_slices 3 (py ''abcdefg'') = [py ''abc'', py ''def'', py ''g'']"
  by (simp add: fixed_width_slices.simps py_def)

theorem oversized_sentence_is_sliced_witness:
  "(0::int) < 3 \<and> 3 < int (length (py ''abcdefg'')) \<and>
   pack_step 3 ([py ''Hi.''], py ''Yo. '') (py ''abcdefg'') =
     Inr ([py ''Hi.'', py ''Yo.'', py ''abc'', py ''def'', py ''g''], [])"
proof -
  have a: "(0::int) < 3" by simp
  have b: "3 < int (length (py ''abcdefg''))" by (simp add: py_def)
  have c: "strip (py ''Yo. '') = py ''Yo.''"
    by (simp add: strip_def py_def py_isspace_def)
  have e: "py ''Yo. '' \<noteq> []" by (simp add: py_def)
  from oversized_sentence_is_sliced [OF a b, of "py ''Yo. ''" "[py ''Hi.'']"]
  have "pack_step 3 ([py ''Hi.''], py ''Yo. '') (py ''abcdefg'') =
       Inr ([py ''Hi.''] @ (if py ''Yo. '' \<noteq> [] then [strip (py ''Yo. '')] else []) @
              map strip (fixed_width_slices (nat 3) (py ''abcdefg'')), [])"
    by blast
  then show ?thesis using a b by (simp add: c e slices_abcdefg) (simp add: strip_def py_def py_isspace_def)
qed

text \<open>
  Claim C3. The step extends the current chunk exactly when
  \<open>len(current_chunk) + len(sentence) + 1 \<le> chunk_size\<close>, the 1 being charged also
  when the current chunk is empty; the sentence is then appended after a single space,
  or with no separator when the current chunk was empty. In every other case the step
  flushes the current chunk instead and either raises (chunk size 0), slices the
  sentence, or starts a new current chunk with it.
\<close>

theorem greedy_packing_decision:
  "(int (length current_chunk) + int (length sentence) + 1 \<le> chunk_size \<longrightarrow>
      pack_step chunk_size (initial_chunks, current_chunk) sentence =
        Inr (initial_chunks,
             if current_chunk = [] then sentence else current_chunk @ [space] @ sentence)) \<and>
   (\<not> int (length current_chunk) + int (length sentence) + 1 \<le> chunk_size \<longrightarrow>
      pack_step chunk_size (initial_chunks, current_chunk) sentence =
        (if chunk_size = 0 \<and> sentence \<noteq> [] then Inl ValueError
         else Inr (initial_chunks @
                     (if current_chunk \<noteq> [] then [strip current_chunk] else []) @
                     (if chunk_size < int (length sentence)
                      then map strip (fixed_width_slices (nat chunk_size) sentence) else []),
                   if chunk_size < int (length sentence) then [] else sentence)))"
proof (intro conjI impI)
  assume "int (length current_chunk) + int (length sentence) + 1 \<le> chunk_size"
  then show "pack_step chunk_size (initial_chunks, current_chunk) sentence =
        Inr (initial_chunks,
             if current_chunk = [] then sentence else current_chunk @ [space] @ sentence)"
    by (rule pack_step_fits)
next
  assume no: "\<not> int (length current_chunk) + int (length sentence) + 1 \<le> chunk_size"
  consider (neg) "chunk_size < 0" | (zero) "chunk_size = 0" "sentence \<noteq> []"
    | (zero_empty) "chunk_size = 0" "sentence = []"
    | (over) "0 < chunk_size" "chunk_size < int (length sentence)"
    | (new) "0 < chunk_size" "int (length sentence) \<le> chunk_size"
    by fastforce
  then show "pack_step chunk_size (initial_chunks, current_chunk) sentence =
        (if chunk_size = 0 \<and> sentence \<noteq> [] then Inl ValueError
         else Inr (initial_chunks @
                     (if current_chunk \<noteq> [] then [strip current_chunk] else []) @
                     (if chunk_size < int (length sentence)
                      then map strip (fixed_width_slices (nat chunk_size) sentence) else []),
                   if chunk_size < int (length sentence) then [] else sentence))"
  proof cases
    case neg
    have "fixed_width_slices (nat chunk_size) sentence = []"
      using neg by (subst fixed_width_slices.simps) simp
    then show ?thesis using neg by (simp add: pack_step_negative)
  next
    case zero
    then show ?thesis by (simp add: pack_step_zero)
  next
    case zero_empty
    then show ?thesis using no by (simp add: pack_step_starts_new)
  next
    case over
    then show ?thesis by (simp add: pack_step_oversized)
  next
    case new
    then show ?thesis using no by (simp add: pack_step_starts_new)
  qed
qed

theorem greedy_packing_decision_witness:
  "int (length (py ''Hello world.'')) + int (length (py ''Hi.'')) + 1 \<le> 16 \<and>
   pack_step 16 ([], py ''Hello world.'') (py ''Hi.'') = Inr ([], py ''Hello world. Hi.'') \<and>
   \<not> int (length (py ''Hello world.'')) + int (length (py ''Hi.'')) + 1 \<le> 15 \<and>
   pack_step 15 ([], py ''Hello world.'') (py ''Hi.'') = Inr ([py ''Hello world.''], py ''Hi.'') \<and>
   \<not> int (length ([]::pystr)) + int (length (py ''Hi.'')) + 1 \<le> 3 \<and>
   pack_step 3 ([], []) (py ''Hi.'') = Inr ([], py ''Hi.'') \<and>
   pack_step 4 ([], []) (py ''Hi.'') = Inr ([], py ''Hi.'')"
  using greedy_packing_decision [of "py ''Hello world.''" "py ''Hi.''" 16 "[]"]
      greedy_packing_decision [of "py ''Hello world.''" "py ''Hi.''" 15 "[]"]
      greedy_packing_decision [of "[]" "py ''Hi.''" 3 "[]"]
      greedy_packing_decision [of "[]" "py ''Hi.''" 4 "[]"]
  by (simp add: py_def space_def strip_def py_isspace_def)

section \<open>The first sentence\<close>

lemma split_from_first:
  "cur \<noteq> [] \<Longrightarrow> \<exists>p ps. split_from prev cur s = p # ps \<and> p \<noteq> []"
proof (induction s arbitrary: prev cur)
  case Nil
  then show ?case by simp
next
  case (Cons c cs)
  show ?case
  proof (cases "c = space \<and> (case prev of None \<Rightarrow> False | Some p \<Rightarrow> is_boundary p)")
    case True
    then show ?thesis using Cons.prems by simp
  next
    case False
    have "\<exists>p ps. split_from (Some c) (cur @ [c]) cs = p # ps \<and> p \<noteq> []"
      by (rule Cons.IH) simp
    then show ?thesis using False by auto
  qed
qed

lemma re_split_first:
  assumes "s \<noteq> []"
  shows "\<exists>p ps. re_split s = p # ps \<and> p \<noteq> []"
proof -
  obtain c cs where s: "s = c # cs" using assms by (cases s) auto
  have "\<exists>p ps. split_from (Some c) ([] @ [c]) cs = p # ps \<and> p \<noteq> []"
    by (rule split_from_first) simp
  then show ?thesis by (simp add: re_split_def s)
qed

section \<open>Chunk size 0\<close>

text \<open>
  Claim C10. For every text that is not empty after trimming, and every overlap,
  \<open>split_text_smart(text, 0, overlap)\<close> raises: the first sentence has at least one
  character, so it exceeds the chunk size 0, and \<open>range\<close> refuses the step 0.
\<close>

theorem chunk_size_zero_raises:
  assumes "strip text \<noteq> []"
  shows "split_text_smart (Some text) 0 overlap = Inl ValueError"
proof -
  obtain p ps where ps: "re_split (strip text) = p # ps" and p: "p \<noteq> []"
    using re_split_first [OF assms] by blast
  have "pack_loop 0 ([], []) (re_split (strip text)) = Inl ValueError"
    by (simp add: ps pack_step_zero [OF p])
  moreover have "text \<noteq> []" using assms by (auto simp: strip_Nil)
  ultimately show ?thesis
    by (simp add: split_text_smart_def initial_chunks_of_def)
qed

theorem chunk_size_zero_raises_witness:
  "strip (py '' Hi. '') \<noteq> [] \<and> split_text_smart (Some (py '' Hi. '')) 0 7 = Inl ValueError"
proof -
  have h: "strip (py '' Hi. '') \<noteq> []"
    by (simp add: strip_def py_def py_isspace_def)
  from chunk_size_zero_raises [OF h, of 7] h show ?thesis by simp
qed

section \<open>Every chunk is trimmed\<close>

lemma stitch_at_stripped: "strip (stitch_at overlap initial_chunks i) = stitch_at overlap initial_chunks i"
  by (simp add: stitch_at_def Let_def strip_idem)

lemma add_overlaps_stripped:
  "c \<in> set (add_overlaps overlap initial_chunks) \<Longrightarrow> strip c = c"
  by (auto simp: add_overlaps_def stitch_at_stripped)

text \<open>
  Claim C9. Whenever \<open>split_text_smart\<close> returns, every string of the result equals its
  own trim: it is empty or neither starts nor ends with a whitespace character.
\<close>

theorem output_chunks_trimmed:
  assumes "split_text_smart text chunk_size overlap = Inr out"
  shows "\<forall>c \<in> set out. strip c = c \<and>
           (c = [] \<or> (\<not> py_isspace (hd c) \<and> \<not> py_isspace (last c)))"
proof
  fix c assume c: "c \<in> set out"
  have "strip c = c"
  proof (cases "text")
    case None
    with assms c show ?thesis by (simp add: split_text_smart_def)
  next
    case (Some t)
    with assms c show ?thesis
      by (auto simp: split_text_smart_def add_overlaps_stripped
               split: if_splits sum.splits)
  qed
  then show "strip c = c \<and> (c = [] \<or> (\<not> py_isspace (hd c) \<and> \<not> py_isspace (last c)))"
    using strip_ends [of c] by simp
qed

theorem output_chunks_trimmed_witness:
  "split_text_smart (Some (py ''a.   b  c '')) 3 2 = Inr [py ''a.'', py ''a. b'', py ''b c''] \<and>
   strip (py ''a. b'') = py ''a. b'' \<and>
   \<not> py_isspace (hd (py ''a. b'')) \<and> \<not> py_isspace (last (py ''a. b''))"
proof -
  have h: "split_text_smart (Some (py ''a.   b  c '')) 3 2 = Inr [py ''a.'', py ''a. b'', py ''b c'']"
    by (simp add: chunker_defs)
  have m: "py ''a. b'' \<in> set [py ''a.'', py ''a. b'', py ''b c'']" by simp
  have n: "py ''a. b'' \<noteq> []" by (simp add: py_def)
  from output_chunks_trimmed [OF h] m n h show ?thesis by blast
qed

section \<open>Overlap stitching\<close>

lemma py_slice_from_trailing:
  "0 < overlap \<Longrightarrow> py_slice_from (- overlap) s = last_chars (nat overlap) s"
  by (simp add: py_slice_from_def clamp_index_def last_chars_def nat_diff_distrib' max_def)

lemma py_slice_from_zero: "py_slice_from (- 0) s = s"
  by (simp add: py_slice_from_def clamp_index_def)

lemma pack_step_keeps_stripped:
  assumes "pack_step chunk_size (ic, cur) sentence = Inr (ic', cur')"
    and "\<forall>c \<in> set ic. strip c = c"
  shows "\<forall>c \<in> set ic'. strip c = c"
  using assms unfolding pack_step_def Let_def
  by (auto split: if_splits sum.splits simp: strip_idem)

lemma pack_loop_keeps_stripped:
  "pack_loop chunk_size st sentences = Inr (ic', cur') \<Longrightarrow>
   \<forall>c \<in> set (fst st). strip c = c \<Longrightarrow> \<forall>c \<in> set ic'. strip c = c"
proof (induction sentences arbitrary: st)
  case Nil
  then show ?case by auto
next
  case (Cons sentence rest)
  obtain ic cur where st: "st = (ic, cur)" by (cases st)
  from Cons.prems(1) obtain ic1 cur1 where
    step: "pack_step chunk_size (ic, cur) sentence = Inr (ic1, cur1)" and
    rest: "pack_loop chunk_size (ic1, cur1) rest = Inr (ic', cur')"
    by (auto simp: st split: sum.splits)
  have "\<forall>c \<in> set ic1. strip c = c"
    using pack_step_keeps_stripped [OF step] Cons.prems(2) st by simp
  then show ?case using Cons.IH [OF rest] by simp
qed

lemma initial_chunks_stripped:
  assumes "initial_chunks_of t chunk_size = Inr ic" and "c \<in> set ic"
  shows "strip c = c"
proof -
  from assms(1) obtain ic0 cur0 where
    loop: "pack_loop chunk_size ([], []) (re_split (strip t)) = Inr (ic0, cur0)" and
    ic: "ic = (if cur0 \<noteq> [] then ic0 @ [strip cur0] else ic0)"
    by (auto simp: initial_chunks_of_def split: sum.splits)
  have "\<forall>c \<in> set ic0. strip c = c"
    using pack_loop_keeps_stripped [OF loop] by simp
  then show ?thesis using assms(2) ic by (auto simp: strip_idem split: if_splits)
qed

text \<open>
  With an overlap above 0 the stitching pass is the one the specification describes:
  chunk 0 is the initial chunk 0, and chunk \<open>i > 0\<close> is the initial chunk \<open>i\<close>, unchanged
  when it starts with the trimmed trailing \<open>overlap\<close> characters of the initial chunk
  \<open>i - 1\<close>, or else with these characters and a space put in front, trimmed.
\<close>

lemma stitching_positive_overlap:
  assumes "0 < overlap" and "t \<noteq> []" and "initial_chunks_of t chunk_size = Inr ic"
  shows "\<exists>out. split_text_smart (Some t) chunk_size overlap = Inr out \<and>
           length out = length ic \<and>
           (\<forall>i < length ic. out ! i =
              (if i = 0 then ic ! 0
               else let overlap_text = strip (last_chars (nat overlap) (ic ! (i - 1)))
                    in if startswith (ic ! i) overlap_text then ic ! i
                       else strip (overlap_text @ [space] @ ic ! i)))"
proof -
  have out: "split_text_smart (Some t) chunk_size overlap = Inr (add_overlaps overlap ic)"
    using assms(2,3) by (simp add: split_text_smart_def)
  have len: "length (add_overlaps overlap ic) = length ic"
    by (simp add: add_overlaps_def)
  have "add_overlaps overlap ic ! i =
      (if i = 0 then ic ! 0
       else let overlap_text = strip (last_chars (nat overlap) (ic ! (i - 1)))
            in if startswith (ic ! i) overlap_text then ic ! i
               else strip (overlap_text @ [space] @ ic ! i))" if i: "i < length ic" for i
  proof -
    have s: "strip (ic ! i) = ic ! i"
      using initial_chunks_stripped [OF assms(3)] i by simp
    show ?thesis
      using i assms(1) s
      by (cases "i = 0")
         (simp_all add: add_overlaps_def stitch_at_def Let_def py_slice_from_trailing)
  qed
  with out len show ?thesis by blast
qed

section \<open>Overlap 0\<close>

text \<open>
  Claim C1. The claim describes the stitching for every overlap from 0 on. At overlap 0
  the slice \<open>[-overlap:]\<close> is \<open>[0:]\<close>, the whole previous chunk and not its trailing
  0 characters: on \<open>"abcdefg"\<close> with chunk size 3 the initial chunks are
  \<open>abc\<close>, \<open>def\<close>, \<open>g\<close>, the trailing 0 characters of each are the empty string, which
  every chunk starts with, and yet the result is \<open>abc\<close>, \<open>abc def\<close>, \<open>def g\<close>.
\<close>

theorem stitching_overlap_zero_prepends_whole_chunk:
  "initial_chunks_of (py ''abcdefg'') 3 = Inr [py ''abc'', py ''def'', py ''g''] \<and>
   strip (last_chars 0 (py ''abc'')) = [] \<and> startswith (py ''def'') [] \<and>
   py_slice_from (- 0) (py ''abc'') = py ''abc'' \<and>
   split_text_smart (Some (py ''abcdefg'')) 3 0 =
     Inr [py ''abc'', py ''abc def'', py ''def g'']"
  by (simp add: chunker_defs last_chars_def)

text \<open>
  Claim C4. With overlap 0 the function should return the initial chunk list unchanged.
  On the text of the specification's scenario it does not: the initial chunks are
  \<open>Hello world.\<close> and \<open>This is a test.\<close>, and the second chunk returned is the whole
  text.
\<close>

theorem zero_overlap_changes_chunks:
  "initial_chunks_of (py ''Hello world. This is a test.'') 15 =
     Inr [py ''Hello world.'', py ''This is a test.''] \<and>
   split_text_smart (Some (py ''Hello world. This is a test.'')) 15 0 =
     Inr [py ''Hello world.'', py ''Hello world. This is a test.''] \<and>
   split_text_smart (Some (py ''Hello world. This is a test.'')) 15 0 \<noteq>
     initial_chunks_of (py ''Hello world. This is a test.'') 15"
  by (simp add: chunker_defs)

section \<open>A chunk size other than 0 never raises\<close>

lemma pack_step_returns:
  "chunk_size \<noteq> 0 \<Longrightarrow> \<exists>st'. pack_step chunk_size st sentence = Inr st'"
  by (cases st) (simp add: pack_step_def py_range_def Let_def)

lemma pack_loop_returns:
  "chunk_size \<noteq> 0 \<Longrightarrow> \<exists>st'. pack_loop chunk_size st sentences = Inr st'"
proof (induction sentences arbitrary: st)
  case Nil
  then show ?case by simp
next
  case (Cons sentence rest)
  obtain st1 where "pack_step chunk_size st sentence = Inr st1"
    using pack_step_returns [OF Cons.prems] by blast
  then show ?case using Cons.IH [OF Cons.prems, of st1] by simp
qed

lemma split_text_smart_returns:
  assumes "chunk_size \<noteq> 0"
  shows "\<exists>out. split_text_smart t chunk_size overlap = Inr out"
proof (cases t)
  case None
  then show ?thesis by (simp add: split_text_smart_def)
next
  case (Some s)
  obtain ic cur where "pack_loop chunk_size ([], []) (re_split (strip s)) = Inr (ic, cur)"
    using pack_loop_returns [OF assms] by (metis surj_pair)
  then show ?thesis by (simp add: Some split_text_smart_def initial_chunks_of_def)
qed


section \<open>Text extraction\<close>

lemma extract_pages_all_read:
  "\<forall>page \<in> set pages. page_text page = Inr (g page) \<Longrightarrow>
   extract_pages page_text acc pages =
     Inr (acc @ concat (map (\<lambda>page. g page @ [newline]) pages))"
  by (induction pages arbitrary: acc) simp_all

lemma extract_pages_error:
  "extract_pages page_text acc pages = Inl e \<Longrightarrow>
   \<exists>page \<in> set pages. page_text page = Inl e"
  by (induction pages arbitrary: acc) (auto split: sum.splits)

text \<open>
  Claim C7. For every document whose pages can be read, \<open>extract_text\<close> returns the page
  texts put together in page order, each followed by a newline, the last one included,
  and stores that text in the processor.
\<close>

theorem extract_text_concatenates_pages:
  assumes "\<forall>page \<in> set (reader self). page_extract_text L page = Inr (g page)"
  shows "extract_text L self =
     Inr (concat (map (\<lambda>page. g page @ [newline]) (reader self)),
          self\<lparr>self_text := concat (map (\<lambda>page. g page @ [newline]) (reader self))\<rparr>)"
  using extract_pages_all_read [OF assms, of "[]"] by (simp add: extract_text_def)

theorem extract_text_concatenates_pages_witness:
  "page_extract_text offline_libraries (py ''Hello world.'') = Inr (py ''Hello world.'') \<and>
   page_extract_text offline_libraries (py ''This is a test.'') = Inr (py ''This is a test.'') \<and>
   extract_text offline_libraries
     \<lparr>pdf_path = ''a.pdf'', reader = [py ''Hello world.'', py ''This is a test.''],
      self_text = py ''old'', chunks = [], embeddings = None\<rparr> =
   Inr (py ''Hello world.'' @ [newline] @ py ''This is a test.'' @ [newline],
        \<lparr>pdf_path = ''a.pdf'', reader = [py ''Hello world.'', py ''This is a test.''],
         self_text = py ''Hello world.'' @ [newline] @ py ''This is a test.'' @ [newline],
         chunks = [], embeddings = None\<rparr>)"
proof -
  let ?self = "\<lparr>pdf_path = ''a.pdf'', reader = [py ''Hello world.'', py ''This is a test.''],
      self_text = py ''old'', chunks = [], embeddings = None :: unit option\<rparr>"
  have h: "\<forall>page \<in> set (reader ?self). page_extract_text offline_libraries page = Inr (id page)"
    by (simp add: offline_libraries_def)
  from extract_text_concatenates_pages [OF h] show ?thesis
    by (simp add: offline_libraries_def)
qed

section \<open>Errors in the pipeline\<close>

lemma generate_embeddings_error:
  assumes "generate_embeddings L self model_name chunk_size overlap = (Inl e, out)"
    and "chunk_size \<noteq> 0"
  shows "(\<exists>page. page_extract_text L page = Inl e) \<or>
         (\<exists>name. SentenceTransformer L name = Inl e) \<or>
         (\<exists>model cs. encode L model cs = Inl e)"
proof (cases "extract_text L self")
  case (Inl e1)
  then have "e1 = e" using assms(1) by (simp add: generate_embeddings_def)
  then have "extract_pages (page_extract_text L) [] (reader self) = Inl e"
    using Inl by (simp add: extract_text_def split: sum.splits)
  then show ?thesis using extract_pages_error by blast
next
  case (Inr r)
  obtain t self1 where r: "r = (t, self1)" by (cases r)
  obtain cs where cs: "split_text_smart (Some t) chunk_size overlap = Inr cs"
    using split_text_smart_returns [OF assms(2)] by blast
  show ?thesis
    using assms(1) Inr r cs
    by (auto simp: generate_embeddings_def Let_def split: sum.splits)
qed

lemma try_block_error:
  assumes "try_block L path db_path collection_name = (Inl e, out)"
  shows "(\<exists>p. PdfReader L p = Inl e) \<or>
         (\<exists>page. page_extract_text L page = Inl e) \<or>
         (\<exists>name. SentenceTransformer L name = Inl e) \<or>
         (\<exists>model cs. encode L model cs = Inl e) \<or>
         (\<exists>p. PersistentClient L p = Inl e) \<or>
         (\<exists>client name. get_or_create_collection L client name = Inl e) \<or>
         (\<exists>collection ids embs documents. upsert L collection ids embs documents = Inl e)"
proof (cases "PDFProcessor_init L path")
  case (Inl e1)
  then have "PdfReader L path = Inl e"
    using assms by (simp add: try_block_def PDFProcessor_init_def split: sum.splits)
  then show ?thesis by blast
next
  case (Inr processor0)
  obtain r out0 where g: "generate_embeddings L processor0 ''all-MiniLM-L6-v2'' 500 50 = (r, out0)"
    by (cases "generate_embeddings L processor0 ''all-MiniLM-L6-v2'' 500 50")
  show ?thesis
  proof (cases r)
    case (Inl e1)
    then have "e1 = e" using assms Inr g by (simp add: try_block_def)
    then show ?thesis using generate_embeddings_error [of L processor0 _ 500 50 e out0] g Inl
      by auto
  next
    case r: (Inr v)
    obtain embs processor where v: "v = (embs, processor)" by (cases v)
    show ?thesis
      using assms Inr g r v
      by (auto simp: try_block_def Let_def split: sum.splits)
  qed
qed

text \<open>
  When the collaborators raise nothing but exceptions derived from \<open>Exception\<close>, every
  call of \<open>process_pdf_and_store_in_chroma\<close> returns.
\<close>

lemma pipeline_always_returns:
  assumes "\<And>p e. PdfReader L p = Inl e \<Longrightarrow> is_Exception e"
    and "\<And>page e. page_extract_text L page = Inl e \<Longrightarrow> is_Exception e"
    and "\<And>name e. SentenceTransformer L name = Inl e \<Longrightarrow> is_Exception e"
    and "\<And>model cs e. encode L model cs = Inl e \<Longrightarrow> is_Exception e"
    and "\<And>p e. PersistentClient L p = Inl e \<Longrightarrow> is_Exception e"
    and "\<And>client name e. get_or_create_collection L client name = Inl e \<Longrightarrow> is_Exception e"
    and "\<And>collection ids embs documents e.
           upsert L collection ids embs documents = Inl e \<Longrightarrow> is_Exception e"
  shows "\<exists>r out. process_pdf_and_store_in_chroma L path db_path collection_name =
           (Returned r, out)"
proof -
  obtain r out where t: "try_block L path db_path collection_name = (r, out)"
    by (cases "try_block L path db_path collection_name")
  show ?thesis
  proof (cases r)
    case (Inl e)
    have "is_Exception e"
      using try_block_error [of L path db_path collection_name e out] t Inl assms
      by blast
    then show ?thesis using t Inl by (simp add: process_pdf_and_store_in_chroma_def)
  next
    case (Inr v)
    then show ?thesis using t
      by (cases v) (simp add: process_pdf_and_store_in_chroma_def)
  qed
qed



end
